theory Spec2Isabelle
  imports Main "HOL-Library.Monad_Syntax"
begin

unbundle bit_operations_syntax

section \<open>DES block cipher (DES\_encryption.cpp)\<close>

text \<open>
  A bit block is a \<open>std::vector<bool>\<close>, modelled as a list of booleans with index 0
  first. The source indexes vectors with the unchecked \<open>operator[]\<close> and with iterator
  arithmetic; a read or write past the end of a vector is undefined behaviour in C++.
  Every operation of the model therefore returns an option: \<open>None\<close> stands for
  "the source leaves the bounds of a vector here", \<open>Some v\<close> for the defined result.

  The conversions \<open>string_to_bits\<close> and \<open>bits_to_string\<close> are elided in the source
  (their bodies are a placeholder comment), so the model of \<open>generate_round_keys\<close>,
  \<open>des_encrypt\<close> and \<open>des_decrypt\<close> takes and returns the bit blocks themselves.
\<close>

type_synonym bits = "bool list"

subsection \<open>Constant tables\<close>

definition IP_TABLE :: "int list" where
  "IP_TABLE =
    [58, 50, 42, 34, 26, 18, 10, 2,
     60, 52, 44, 36, 28, 20, 12, 4,
     62, 54, 46, 38, 30, 22, 14, 6,
     64, 56, 48, 40, 32, 24, 16, 8,
     57, 49, 41, 33, 25, 17, 9, 1,
     59, 51, 43, 35, 27, 19, 11, 3,
     61, 53, 45, 37, 29, 21, 13, 5,
     63, 55, 47, 39, 31, 23, 15, 7]"

definition E_TABLE :: "int list" where
  "E_TABLE =
    [32,  1,  2,  3,  4,  5,
      4,  5,  6,  7,  8,  9,
      8,  9, 10, 11, 12, 13,
     12, 13, 14, 15, 16, 17,
     16, 17, 18, 19, 20, 21,
     20, 21, 22, 23, 24, 25,
     24, 25, 26, 27, 28, 29,
     28, 29, 30, 31, 32,  1]"

definition P_TABLE :: "int list" where
  "P_TABLE =
    [16,  7, 20, 21, 29, 12, 28, 17,
      1, 15, 23, 26,  5, 18, 31, 10,
      2,  8, 24, 14, 32, 27,  3,  9,
     19, 13, 30,  6, 22, 11,  4, 25]"

definition S_BOXES :: "int list list list" where
  "S_BOXES =
    [[[14, 4, 13, 1, 2, 15, 11, 8, 3, 10, 6, 12, 5, 9, 0, 7],
      [0, 15, 7, 4, 14, 2, 13, 1, 10, 6, 12, 11, 9, 5, 3, 8],
      [4, 1, 14, 8, 13, 6, 2, 11, 15, 12, 9, 7, 3, 10, 5, 0],
      [15, 12, 8, 2, 4, 9, 1, 7, 5, 11, 3, 14, 10, 0, 6, 13]],
     [[15, 1, 8, 14, 6, 11, 3, 4, 9, 7, 2, 13, 12, 0, 5, 10],
      [3, 13, 4, 7, 15, 2, 8, 14, 12, 0, 1, 10, 6, 9, 11, 5],
      [0, 14, 7, 11, 10, 4, 13, 1, 5, 8, 12, 6, 9, 3, 2, 15],
      [13, 8, 10, 1, 3, 15, 4, 2, 11, 6, 7, 12, 0, 5, 14, 9]],
     [[10, 0, 9, 14, 6, 3, 15, 5, 1, 13, 12, 7, 11, 4, 2, 8],
      [13, 7, 0, 9, 3, 4, 6, 10, 2, 8, 5, 14, 12, 11, 15, 1],
      [13, 6, 4, 9, 8, 15, 3, 0, 11, 1, 2, 12, 5, 10, 14, 7],
      [1, 10, 13, 0, 6, 9, 8, 7, 4, 15, 14, 3, 11, 5, 2, 12]],
     [[7, 13, 14, 3, 0, 6, 9, 10, 1, 2, 8, 5, 11, 12, 4, 15],
      [13, 8, 11, 5, 6, 15, 0, 3, 4, 7, 2, 12, 1, 10, 14, 9],
      [10, 6, 9, 0, 12, 11, 7, 13, 15, 1, 3, 14, 5, 2, 8, 4],
      [3, 15, 0, 6, 10, 1, 13, 8, 9, 4, 5, 11, 12, 7, 2, 14]],
     [[2, 12, 4, 1, 7, 10, 11, 6, 8, 5, 3, 15, 13, 0, 14, 9],
      [14, 11, 2, 12, 4, 7, 13, 1, 5, 0, 15, 10, 3, 9, 8, 6],
      [4, 2, 1, 11, 10, 13, 7, 8, 15, 9, 12, 5, 6, 3, 0, 14],
      [11, 8, 12, 7, 1, 14, 2, 13, 6, 15, 0, 9, 10, 4, 5, 3]],
     [[12, 1, 10, 15, 9, 2, 6, 8, 0, 13, 3, 4, 14, 7, 5, 11],
      [10, 15, 4, 2, 7, 12, 9, 5, 6, 1, 13, 14, 0, 11, 3, 8],
      [9, 14, 15, 5, 2, 8, 12, 3, 7, 0, 4, 10, 1, 13, 11, 6],
      [4, 3, 2, 12, 9, 5, 15, 10, 11, 14, 1, 7, 6, 0, 8, 13]],
     [[4, 11, 2, 14, 15, 0, 8, 13, 3, 12, 9, 7, 5, 10, 6, 1],
      [13, 0, 11, 7, 4, 9, 1, 10, 14, 3, 5, 12, 2, 15, 8, 6],
      [1, 4, 11, 13, 12, 3, 7, 14, 10, 15, 6, 8, 0, 5, 9, 2],
      [6, 11, 13, 8, 1, 4, 10, 7, 9, 5, 0, 15, 14, 2, 3, 12]],
     [[13, 2, 8, 4, 6, 15, 11, 1, 10, 9, 3, 14, 5, 0, 12, 7],
      [1, 15, 13, 8, 10, 3, 7, 4, 12, 5, 6, 11, 0, 14, 9, 2],
      [7, 11, 4, 1, 9, 12, 14, 2, 0, 6, 10, 13, 15, 3, 5, 8],
      [2, 1, 14, 7, 4, 10, 8, 13, 15, 12, 9, 0, 3, 5, 6, 11]]]"

definition PC1_TABLE :: "int list" where
  "PC1_TABLE =
    [57, 49, 41, 33, 25, 17, 9, 1, 58, 50, 42, 34, 26, 18,
     10, 2, 59, 51, 43, 35, 27, 19, 11, 3, 60, 52, 44, 36,
     63, 55, 47, 39, 31, 23, 15, 7, 62, 54, 46, 38, 30, 22,
     14, 6, 61, 53, 45, 37, 29, 21, 13, 5, 28, 20, 12, 4]"

definition PC2_TABLE :: "int list" where
  "PC2_TABLE =
    [14, 17, 11, 24, 1, 5, 3, 28, 15, 6, 21, 10,
     23, 19, 12, 4, 26, 8, 16, 7, 27, 20, 13, 2,
     41, 52, 31, 37, 47, 55, 30, 40, 51, 45, 33, 48,
     44, 49, 39, 56, 34, 53, 46, 42, 50, 36, 29, 32]"

definition SHIFT_SCHEDULE :: "int list" where
  "SHIFT_SCHEDULE = [1, 1, 2, 2, 2, 2, 2, 2, 1, 2, 2, 2, 2, 2, 2, 1]"

definition IP_INV_TABLE :: "int list" where
  "IP_INV_TABLE =
    [40, 8, 48, 16, 56, 24, 64, 32, 39, 7, 47, 15, 55, 23, 63, 31,
     38, 6, 46, 14, 54, 22, 62, 30, 37, 5, 45, 13, 53, 21, 61, 29,
     36, 4, 44, 12, 52, 20, 60, 28, 35, 3, 43, 11, 51, 19, 59, 27,
     34, 2, 42, 10, 50, 18, 58, 26, 33, 1, 41, 9, 49, 17, 57, 25]"

subsection \<open>Helper functions\<close>

text \<open>
  A counted loop \<open>for (int i = a; i < b; ++i) body\<close> over a state: the indices are
  visited in order and the loop stops at the first step that leaves the bounds of a vector.
\<close>

primrec for_loop :: "nat list \<Rightarrow> (nat \<Rightarrow> 's \<Rightarrow> 's option) \<Rightarrow> 's \<Rightarrow> 's option" where
  "for_loop [] body s = Some s"
| "for_loop (i # is) body s = (case body i s of None \<Rightarrow> None | Some s' \<Rightarrow> for_loop is body s')"

text \<open>
  \<open>apply_permutation\<close>: \<open>output[i] = input[table[i] - 1]\<close> for \<open>i < table_size\<close>.
  The result is defined when the table has \<open>table_size\<close> entries and every index
  \<open>table[i] - 1\<close> read lies inside \<open>input\<close>.
\<close>

definition apply_permutation :: "bits \<Rightarrow> int list \<Rightarrow> nat \<Rightarrow> bits option" where
  "apply_permutation input table table_size =
     (if table_size \<le> length table \<and>
         list_all (\<lambda>i. 0 \<le> table ! i - 1 \<and> table ! i - 1 < int (length input)) [0..<table_size]
      then Some (map (\<lambda>i. input ! nat (table ! i - 1)) [0..<table_size])
      else None)"

text \<open>
  \<open>circular_left_shift\<close>: \<open>std::rotate(begin, begin + shift_amount, end)\<close> on a copy.
  The middle iterator has to lie inside the vector.
\<close>

definition circular_left_shift :: "bits \<Rightarrow> int \<Rightarrow> bits option" where
  "circular_left_shift input shift_amount =
     (if 0 \<le> shift_amount \<and> shift_amount \<le> int (length input)
      then Some (drop (nat shift_amount) input @ take (nat shift_amount) input)
      else None)"

text \<open>
  \<open>xor_bits\<close>: the result has the size of \<open>a\<close>, and \<open>b[i]\<close> is read for every
  \<open>i < a.size()\<close>.
\<close>

definition xor_bits :: "bits \<Rightarrow> bits \<Rightarrow> bits option" where
  "xor_bits a b =
     (if length a \<le> length b
      then Some (map (\<lambda>i. a ! i \<noteq> b ! i) [0..<length a])
      else None)"

text \<open>
  The row and column of an S-box lookup, from the six bits of a chunk, as the source
  computes them with shifts and bitwise or on the bits promoted to \<open>int\<close>.
\<close>

definition s_box_row :: "bits \<Rightarrow> int" where
  "s_box_row s_box_input =
     push_bit 1 (of_bool (s_box_input ! 0)) OR of_bool (s_box_input ! 5)"

definition s_box_col :: "bits \<Rightarrow> int" where
  "s_box_col s_box_input =
     push_bit 3 (of_bool (s_box_input ! 1)) OR push_bit 2 (of_bool (s_box_input ! 2))
       OR push_bit 1 (of_bool (s_box_input ! 3)) OR of_bool (s_box_input ! 4)"

text \<open>The read \<open>S_BOXES[i][row][col]\<close> of the \<open>8 \<times> 4 \<times> 16\<close> array.\<close>

definition s_box_lookup :: "nat \<Rightarrow> int \<Rightarrow> int \<Rightarrow> int option" where
  "s_box_lookup i row col =
     (if i < length S_BOXES \<and> 0 \<le> row \<and> nat row < length (S_BOXES ! i)
         \<and> 0 \<le> col \<and> nat col < length (S_BOXES ! i ! nat row)
      then Some (S_BOXES ! i ! nat row ! nat col)
      else None)"

text \<open>
  One iteration of the outer loop of \<open>s_box_substitution\<close>: the six-bit chunk \<open>i\<close> is
  cut out of the input, looked up, and the four bits of the value are written to
  \<open>output[i * 4 + j]\<close>, \<open>j = 0..3\<close>, as \<open>(value >> (3 - j)) & 1\<close>.
\<close>

definition s_box_step :: "bits \<Rightarrow> nat \<Rightarrow> bits \<Rightarrow> bits option" where
  "s_box_step input i output =
     (if (i + 1) * 6 \<le> length input then
        (let s_box_input = take 6 (drop (i * 6) input);
             row = s_box_row s_box_input;
             col = s_box_col s_box_input
         in do {
           s_box_output_val \<leftarrow> s_box_lookup i row col;
           for_loop [0..<4]
             (\<lambda>j out. if (i * 4) + j < length out
                       then Some (out[(i * 4) + j := (drop_bit (3 - j) s_box_output_val AND 1) \<noteq> 0])
                       else None)
             output
         })
      else None)"

definition s_box_substitution :: "bits \<Rightarrow> bits option" where
  "s_box_substitution input = for_loop [0..<8] (s_box_step input) (replicate 32 False)"

text \<open>
  \<open>std::copy(src.begin(), src.end(), dst.begin() + off)\<close>: the copied range has to fit
  into the destination.
\<close>

definition copy_into :: "bits \<Rightarrow> bits \<Rightarrow> nat \<Rightarrow> bits option" where
  "copy_into src dst off =
     (if off + length src \<le> length dst
      then Some (take off dst @ src @ drop (off + length src) dst)
      else None)"

subsection \<open>Key generation\<close>

text \<open>
  One round of the key-generation loop on the state \<open>(c_half, d_half, round_keys)\<close>:
  both halves are rotated by \<open>SHIFT_SCHEDULE[i]\<close>, copied into a fresh 56-bit vector,
  and PC-2 of that vector is stored in \<open>round_keys[i]\<close>.
\<close>

definition key_round :: "nat \<Rightarrow> bits \<times> bits \<times> bits list \<Rightarrow> (bits \<times> bits \<times> bits list) option" where
  "key_round i st =
     (case st of (c_half, d_half, round_keys) \<Rightarrow>
        if i < length SHIFT_SCHEDULE \<and> i < length round_keys then do {
          c_half' \<leftarrow> circular_left_shift c_half (SHIFT_SCHEDULE ! i);
          d_half' \<leftarrow> circular_left_shift d_half (SHIFT_SCHEDULE ! i);
          combined_c \<leftarrow> copy_into c_half' (replicate 56 False) 0;
          combined_key \<leftarrow> copy_into d_half' combined_c 28;
          round_key \<leftarrow> apply_permutation combined_key PC2_TABLE 48;
          Some (c_half', d_half', round_keys[i := round_key])
        } else None)"

text \<open>
  The state of \<open>generate_round_keys\<close> when its loop has finished: the final C and D
  halves and the 16 round keys.
\<close>

definition key_schedule :: "bits \<Rightarrow> (bits \<times> bits \<times> bits list) option" where
  "key_schedule master_key_bits = do {
     pc1_key \<leftarrow> apply_permutation master_key_bits PC1_TABLE 56;
     for_loop [0..<16] key_round (take 28 pc1_key, drop 28 pc1_key, replicate 16 [])
   }"

definition generate_round_keys :: "bits \<Rightarrow> bits list option" where
  "generate_round_keys master_key_bits =
     map_option (\<lambda>(c_half, d_half, round_keys). round_keys) (key_schedule master_key_bits)"

subsection \<open>Encryption\<close>

text \<open>One round of the Feistel loop of \<open>des_encrypt\<close> on the state \<open>(left_half, right_half)\<close>.\<close>

definition encrypt_round :: "bits list \<Rightarrow> nat \<Rightarrow> bits \<times> bits \<Rightarrow> (bits \<times> bits) option" where
  "encrypt_round round_keys i st =
     (case st of (left_half, right_half) \<Rightarrow>
        if i < length round_keys then do {
          expanded_right \<leftarrow> apply_permutation right_half E_TABLE 48;
          xored_expanded \<leftarrow> xor_bits expanded_right (round_keys ! i);
          s_box_output \<leftarrow> s_box_substitution xored_expanded;
          p_box_output \<leftarrow> apply_permutation s_box_output P_TABLE 32;
          right_half' \<leftarrow> xor_bits left_half p_box_output;
          Some (right_half, right_half')
        } else None)"

text \<open>
  Steps 3 to 7 of \<open>des_encrypt\<close>: the block transform for a given sequence of round
  keys (initial permutation, 16 rounds, re-assembly as right before left, inverse
  initial permutation).
\<close>

definition encrypt_transform :: "bits \<Rightarrow> bits list \<Rightarrow> bits option" where
  "encrypt_transform block round_keys = do {
     block' \<leftarrow> apply_permutation block IP_TABLE 64;
     (left_half, right_half) \<leftarrow>
        for_loop [0..<16] (encrypt_round round_keys) (take 32 block', drop 32 block');
     combined_r \<leftarrow> copy_into right_half (replicate 64 False) 0;
     combined_block \<leftarrow> copy_into left_half combined_r 32;
     apply_permutation combined_block IP_INV_TABLE 64
   }"

definition des_encrypt :: "bits \<Rightarrow> bits \<Rightarrow> bits option" where
  "des_encrypt plaintext key = do {
     round_keys \<leftarrow> generate_round_keys key;
     encrypt_transform plaintext round_keys
   }"

subsection \<open>Decryption\<close>

text \<open>One round of the loop of \<open>des_decrypt\<close>, which the source writes out a second time.\<close>

definition decrypt_round :: "bits list \<Rightarrow> nat \<Rightarrow> bits \<times> bits \<Rightarrow> (bits \<times> bits) option" where
  "decrypt_round round_keys i st =
     (case st of (left_half, right_half) \<Rightarrow>
        if i < length round_keys then do {
          expanded_right \<leftarrow> apply_permutation right_half E_TABLE 48;
          xored_expanded \<leftarrow> xor_bits expanded_right (round_keys ! i);
          s_box_output \<leftarrow> s_box_substitution xored_expanded;
          p_box_output \<leftarrow> apply_permutation s_box_output P_TABLE 32;
          right_half' \<leftarrow> xor_bits left_half p_box_output;
          Some (right_half, right_half')
        } else None)"

definition des_decrypt :: "bits \<Rightarrow> bits \<Rightarrow> bits option" where
  "des_decrypt ciphertext key = do {
     round_keys \<leftarrow> generate_round_keys key;
     block \<leftarrow> apply_permutation ciphertext IP_TABLE 64;
     (left_half, right_half) \<leftarrow>
        for_loop [0..<16] (decrypt_round (rev round_keys)) (take 32 block, drop 32 block);
     combined_r \<leftarrow> copy_into right_half (replicate 64 False) 0;
     combined_block \<leftarrow> copy_into left_half combined_r 32;
     apply_permutation combined_block IP_INV_TABLE 64
   }"

subsection \<open>Reading a bit block as a number\<close>

text \<open>The value of a bit block read most significant bit first, to compare with published vectors.\<close>

definition bits_value :: "bits \<Rightarrow> int" where
  "bits_value bs = foldl (\<lambda>acc b. 2 * acc + of_bool b) 0 bs"

section \<open>Definitions for the statements\<close>

text \<open>
  The row, the column and the output bits of the substitution step, written with the
  arithmetic of the specification (positions of the 48-bit input, sums of weighted bits,
  division and remainder) instead of the shifts and masks of the source.
\<close>

definition spec_row :: "bits \<Rightarrow> nat \<Rightarrow> nat" where
  "spec_row input j = 2 * of_bool (input ! (6 * j)) + of_bool (input ! (6 * j + 5))"

definition spec_col :: "bits \<Rightarrow> nat \<Rightarrow> nat" where
  "spec_col input j =
     8 * of_bool (input ! (6 * j + 1)) + 4 * of_bool (input ! (6 * j + 2))
       + 2 * of_bool (input ! (6 * j + 3)) + of_bool (input ! (6 * j + 4))"

definition spec_s_box_bit :: "bits \<Rightarrow> nat \<Rightarrow> nat \<Rightarrow> bool" where
  "spec_s_box_bit input j k =
     ((S_BOXES ! j ! spec_row input j ! spec_col input j) div 2 ^ (3 - k) mod 2 = 1)"

definition spec_substitution :: "bits \<Rightarrow> bits" where
  "spec_substitution input = map (\<lambda>m. spec_s_box_bit input (m div 4) (m mod 4)) [0..<32]"

text \<open>
  The round function of the Feistel network: the part of a round that is applied to the
  right half (expansion, key mixing, substitution, P permutation), as both round loops
  of the source compute it.
\<close>

definition feistel_f :: "bits \<Rightarrow> bits \<Rightarrow> bits option" where
  "feistel_f right_half round_key = do {
     expanded_right \<leftarrow> apply_permutation right_half E_TABLE 48;
     xored_expanded \<leftarrow> xor_bits expanded_right round_key;
     s_box_output \<leftarrow> s_box_substitution xored_expanded;
     apply_permutation s_box_output P_TABLE 32
   }"

section \<open>Loops and permutation tables\<close>

lemma for_loop_append:
  "for_loop (xs @ ys) body s = (case for_loop xs body s of None \<Rightarrow> None | Some s' \<Rightarrow> for_loop ys body s')"
  by (induction xs arbitrary: s) (auto split: option.splits)

lemma for_loop_snoc:
  "for_loop (xs @ [i]) body s = (case for_loop xs body s of None \<Rightarrow> None | Some s' \<Rightarrow> body i s')"
  by (simp add: for_loop_append split: option.splits)

lemma for_loop_upt_Suc:
  "for_loop [0..<Suc n] body s = (case for_loop [0..<n] body s of None \<Rightarrow> None | Some s' \<Rightarrow> body n s')"
  by (simp add: for_loop_snoc)

lemma for_loop_cong:
  "(\<And>i s. i \<in> set xs \<Longrightarrow> f i s = g i s) \<Longrightarrow> for_loop xs f s = for_loop xs g s"
  by (induction xs arbitrary: s) (auto split: option.splits)

lemma list_all_upt_nth:
  "n \<le> length T \<Longrightarrow> list_all P (take n T) \<Longrightarrow> list_all (\<lambda>i. P (T ! i)) [0..<n]"
proof -
  assume le: "n \<le> length T" and all: "list_all P (take n T)"
  have "P (T ! i)" if "i < n" for i
  proof -
    have "take n T ! i \<in> set (take n T)"
      using that le by (intro nth_mem) simp
    then show ?thesis
      using all that by (simp add: list_all_iff)
  qed
  then show ?thesis
    by (simp add: list_all_iff)
qed

lemma apply_permutation_Some:
  assumes "n \<le> length T" and "list_all (\<lambda>e. 1 \<le> e \<and> e \<le> int m) (take n T)" and "m \<le> length input"
  shows "apply_permutation input T n = Some (map (\<lambda>i. input ! nat (T ! i - 1)) [0..<n])"
proof -
  have "list_all (\<lambda>i. 1 \<le> T ! i \<and> T ! i \<le> int m) [0..<n]"
    using list_all_upt_nth [OF assms(1), of "\<lambda>e. 1 \<le> e \<and> e \<le> int m"] assms(2) by simp
  then have "list_all (\<lambda>i. 0 \<le> T ! i - 1 \<and> T ! i - 1 < int (length input)) [0..<n]"
    using assms(3) by (auto simp: list_all_iff)
  then show ?thesis
    using assms(1) by (simp add: apply_permutation_def)
qed

lemma apply_permutation_length:
  "apply_permutation input T n = Some out \<Longrightarrow> length out = n"
  by (auto simp: apply_permutation_def split: if_splits)

lemma IP_TABLE_range: "length IP_TABLE = 64 \<and> list_all (\<lambda>e. 1 \<le> e \<and> e \<le> 64) IP_TABLE"
  by (simp add: IP_TABLE_def)
lemma IP_INV_TABLE_range: "length IP_INV_TABLE = 64 \<and> list_all (\<lambda>e. 1 \<le> e \<and> e \<le> 64) IP_INV_TABLE"
  by (simp add: IP_INV_TABLE_def)
lemma PC1_TABLE_range: "length PC1_TABLE = 56 \<and> list_all (\<lambda>e. 1 \<le> e \<and> e \<le> 64) PC1_TABLE"
  by (simp add: PC1_TABLE_def)
lemma PC2_TABLE_range: "length PC2_TABLE = 48 \<and> list_all (\<lambda>e. 1 \<le> e \<and> e \<le> 56) PC2_TABLE"
  by (simp add: PC2_TABLE_def)
lemma E_TABLE_range: "length E_TABLE = 48 \<and> list_all (\<lambda>e. 1 \<le> e \<and> e \<le> 32) E_TABLE"
  by (simp add: E_TABLE_def)
lemma P_TABLE_range: "length P_TABLE = 32 \<and> list_all (\<lambda>e. 1 \<le> e \<and> e \<le> 32) P_TABLE"
  by (simp add: P_TABLE_def)

lemma apply_IP:
  "64 \<le> length b \<Longrightarrow> apply_permutation b IP_TABLE 64 = Some (map (\<lambda>i. b ! nat (IP_TABLE ! i - 1)) [0..<64])"
  using apply_permutation_Some [of 64 IP_TABLE 64 b] IP_TABLE_range by simp
lemma apply_IP_INV:
  "64 \<le> length b \<Longrightarrow> apply_permutation b IP_INV_TABLE 64 = Some (map (\<lambda>i. b ! nat (IP_INV_TABLE ! i - 1)) [0..<64])"
  using apply_permutation_Some [of 64 IP_INV_TABLE 64 b] IP_INV_TABLE_range by simp
lemma apply_PC1:
  "64 \<le> length b \<Longrightarrow> apply_permutation b PC1_TABLE 56 = Some (map (\<lambda>i. b ! nat (PC1_TABLE ! i - 1)) [0..<56])"
  using apply_permutation_Some [of 56 PC1_TABLE 64 b] PC1_TABLE_range by simp
lemma apply_PC2:
  "56 \<le> length b \<Longrightarrow> apply_permutation b PC2_TABLE 48 = Some (map (\<lambda>i. b ! nat (PC2_TABLE ! i - 1)) [0..<48])"
  using apply_permutation_Some [of 48 PC2_TABLE 56 b] PC2_TABLE_range by simp
lemma apply_E:
  "32 \<le> length b \<Longrightarrow> apply_permutation b E_TABLE 48 = Some (map (\<lambda>i. b ! nat (E_TABLE ! i - 1)) [0..<48])"
  using apply_permutation_Some [of 48 E_TABLE 32 b] E_TABLE_range by simp
lemma apply_P:
  "32 \<le> length b \<Longrightarrow> apply_permutation b P_TABLE 32 = Some (map (\<lambda>i. b ! nat (P_TABLE ! i - 1)) [0..<32])"
  using apply_permutation_Some [of 32 P_TABLE 32 b] P_TABLE_range by simp

lemma IP_INV_after_IP_index:
  "list_all (\<lambda>i. nat (IP_INV_TABLE ! i - 1) < 64 \<and> nat (IP_TABLE ! nat (IP_INV_TABLE ! i - 1) - 1) = i) [0..<64]"
  by code_simp

lemma IP_after_IP_INV_index:
  "list_all (\<lambda>i. nat (IP_TABLE ! i - 1) < 64 \<and> nat (IP_INV_TABLE ! nat (IP_TABLE ! i - 1) - 1) = i) [0..<64]"
  by code_simp

lemma IP_INV_after_IP:
  assumes "length b = 64"
  shows "Option.bind (apply_permutation b IP_TABLE 64) (\<lambda>x. apply_permutation x IP_INV_TABLE 64) = Some b"
proof -
  let ?b' = "map (\<lambda>i. b ! nat (IP_TABLE ! i - 1)) [0..<64]"
  have idx: "\<And>i. i < 64 \<Longrightarrow> nat (IP_INV_TABLE ! i - 1) < 64 \<and> nat (IP_TABLE ! nat (IP_INV_TABLE ! i - 1) - 1) = i"
    using IP_INV_after_IP_index by (simp add: list_all_iff)
  have "map (\<lambda>i. ?b' ! nat (IP_INV_TABLE ! i - 1)) [0..<64] = b"
    using assms idx by (intro nth_equalityI) simp_all
  then show ?thesis
    using assms by (simp add: apply_IP apply_IP_INV)
qed

lemma IP_after_IP_INV:
  assumes "length b = 64"
  shows "Option.bind (apply_permutation b IP_INV_TABLE 64) (\<lambda>x. apply_permutation x IP_TABLE 64) = Some b"
proof -
  let ?b' = "map (\<lambda>i. b ! nat (IP_INV_TABLE ! i - 1)) [0..<64]"
  have idx: "\<And>i. i < 64 \<Longrightarrow> nat (IP_TABLE ! i - 1) < 64 \<and> nat (IP_INV_TABLE ! nat (IP_TABLE ! i - 1) - 1) = i"
    using IP_after_IP_INV_index by (simp add: list_all_iff)
  have "map (\<lambda>i. ?b' ! nat (IP_TABLE ! i - 1)) [0..<64] = b"
    using assms idx by (intro nth_equalityI) simp_all
  then show ?thesis
    using assms by (simp add: apply_IP apply_IP_INV)
qed

section \<open>Permutation tables\<close>

text \<open>
  Claim C8. Every entry of every permutation table lies between 1 and the declared input
  length of the table (64 for IP, IP\_INV and PC-1, 56 for PC-2, 32 for E and P), so
  \<open>apply_permutation\<close> stays inside an input of the declared length: its result there is
  never \<open>None\<close>, the model's value for a read outside the input.
\<close>

theorem permutation_tables_in_range:
  "list_all (\<lambda>e. 1 \<le> e \<and> e \<le> 64) IP_TABLE \<and> length IP_TABLE = 64
   \<and> list_all (\<lambda>e. 1 \<le> e \<and> e \<le> 64) IP_INV_TABLE \<and> length IP_INV_TABLE = 64
   \<and> list_all (\<lambda>e. 1 \<le> e \<and> e \<le> 64) PC1_TABLE \<and> length PC1_TABLE = 56
   \<and> list_all (\<lambda>e. 1 \<le> e \<and> e \<le> 56) PC2_TABLE \<and> length PC2_TABLE = 48
   \<and> list_all (\<lambda>e. 1 \<le> e \<and> e \<le> 32) E_TABLE \<and> length E_TABLE = 48
   \<and> list_all (\<lambda>e. 1 \<le> e \<and> e \<le> 32) P_TABLE \<and> length P_TABLE = 32
   \<and> (length b64 = 64 \<longrightarrow>
         apply_permutation b64 IP_TABLE 64 \<noteq> None
         \<and> apply_permutation b64 IP_INV_TABLE 64 \<noteq> None
         \<and> apply_permutation b64 PC1_TABLE 56 \<noteq> None)
   \<and> (length b56 = 56 \<longrightarrow> apply_permutation b56 PC2_TABLE 48 \<noteq> None)
   \<and> (length b32 = 32 \<longrightarrow>
         apply_permutation b32 E_TABLE 48 \<noteq> None
         \<and> apply_permutation b32 P_TABLE 32 \<noteq> None)"
  using IP_TABLE_range IP_INV_TABLE_range PC1_TABLE_range PC2_TABLE_range E_TABLE_range P_TABLE_range
  by (simp add: apply_IP apply_IP_INV apply_PC1 apply_PC2 apply_E apply_P)

theorem permutation_tables_in_range_witness:
  "length (replicate 64 True) = 64 \<and> length (replicate 56 True) = 56 \<and> length (replicate 32 True) = 32
   \<and> apply_permutation (replicate 64 True) IP_TABLE 64 \<noteq> None
   \<and> apply_permutation (replicate 64 True) IP_INV_TABLE 64 \<noteq> None
   \<and> apply_permutation (replicate 64 True) PC1_TABLE 56 \<noteq> None
   \<and> apply_permutation (replicate 56 True) PC2_TABLE 48 \<noteq> None
   \<and> apply_permutation (replicate 32 True) E_TABLE 48 \<noteq> None
   \<and> apply_permutation (replicate 32 True) P_TABLE 32 \<noteq> None"
  using permutation_tables_in_range [of "replicate 64 True" "replicate 56 True" "replicate 32 True"]
  by simp

text \<open>
  Claim C9. \<open>IP_INV_TABLE\<close> is the inverse permutation of \<open>IP_TABLE\<close>: on every 64-bit
  block, applying IP and then IP\_INV gives the block back, and so does applying IP\_INV
  and then IP.
\<close>

theorem IP_INV_inverts_IP:
  "length b = 64 \<Longrightarrow>
     (apply_permutation b IP_TABLE 64 \<bind> (\<lambda>x. apply_permutation x IP_INV_TABLE 64)) = Some b
     \<and> (apply_permutation b IP_INV_TABLE 64 \<bind> (\<lambda>x. apply_permutation x IP_TABLE 64)) = Some b"
  using IP_INV_after_IP [of b] IP_after_IP_INV [of b] by simp

theorem IP_INV_inverts_IP_witness:
  "length (replicate 32 True @ replicate 32 False) = 64
   \<and> (apply_permutation (replicate 32 True @ replicate 32 False) IP_TABLE 64
         \<bind> (\<lambda>x. apply_permutation x IP_INV_TABLE 64)) = Some (replicate 32 True @ replicate 32 False)
   \<and> (apply_permutation (replicate 32 True @ replicate 32 False) IP_INV_TABLE 64
         \<bind> (\<lambda>x. apply_permutation x IP_TABLE 64)) = Some (replicate 32 True @ replicate 32 False)"
proof -
  have h: "length (replicate 32 True @ replicate 32 False) = 64" by simp
  show ?thesis
    using h IP_INV_inverts_IP [OF h] by simp
qed

section \<open>The substitution step\<close>

lemma S_BOXES_shape:
  "length S_BOXES = 8 \<and>
   list_all (\<lambda>box. length box = 4 \<and>
     list_all (\<lambda>row. length row = 16 \<and> list_all (\<lambda>v. 0 \<le> v \<and> v \<le> 15) row) box) S_BOXES"
  by (simp add: S_BOXES_def)

lemma S_BOXES_entry:
  assumes "j < 8" and "r < 4" and "c < 16"
  shows "length S_BOXES = 8 \<and> length (S_BOXES ! j) = 4 \<and> length (S_BOXES ! j ! r) = 16
         \<and> 0 \<le> S_BOXES ! j ! r ! c \<and> S_BOXES ! j ! r ! c \<le> 15"
proof -
  have len: "length S_BOXES = 8"
    using S_BOXES_shape by simp
  have "S_BOXES ! j \<in> set S_BOXES"
    using assms(1) len by simp
  then have box: "length (S_BOXES ! j) = 4"
     and rows: "\<forall>row \<in> set (S_BOXES ! j). length row = 16 \<and> (\<forall>v \<in> set row. 0 \<le> v \<and> v \<le> 15)"
    using S_BOXES_shape by (auto simp: list_all_iff)
  have "S_BOXES ! j ! r \<in> set (S_BOXES ! j)"
    using assms(2) box by simp
  then have row: "length (S_BOXES ! j ! r) = 16"
     and vals: "\<forall>v \<in> set (S_BOXES ! j ! r). 0 \<le> v \<and> v \<le> 15"
    using rows by auto
  have "S_BOXES ! j ! r ! c \<in> set (S_BOXES ! j ! r)"
    using assms(3) row by simp
  then show ?thesis
    using len box row vals by auto
qed

lemma s_box_row_arith:
  "s_box_row c = 2 * of_bool (c ! 0) + of_bool (c ! 5)"
  by (cases "c ! 0"; cases "c ! 5") (simp_all add: s_box_row_def)

lemma s_box_col_arith:
  "s_box_col c = 8 * of_bool (c ! 1) + 4 * of_bool (c ! 2) + 2 * of_bool (c ! 3) + of_bool (c ! 4)"
  by (cases "c ! 1"; cases "c ! 2"; cases "c ! 3"; cases "c ! 4") (simp_all add: s_box_col_def)

lemma s_box_row_bounds: "0 \<le> s_box_row c \<and> s_box_row c \<le> 3"
  by (simp add: s_box_row_arith)

lemma s_box_col_bounds: "0 \<le> s_box_col c \<and> s_box_col c \<le> 15"
  by (simp add: s_box_col_arith)

lemma s_box_lookup_Some:
  assumes "j < 8" and "0 \<le> row" and "row \<le> 3" and "0 \<le> col" and "col \<le> 15"
  shows "s_box_lookup j row col = Some (S_BOXES ! j ! nat row ! nat col)
         \<and> 0 \<le> S_BOXES ! j ! nat row ! nat col \<and> S_BOXES ! j ! nat row ! nat col \<le> 15"
proof -
  have r: "nat row < 4" and c: "nat col < 16"
    using assms by auto
  show ?thesis
    using S_BOXES_entry [OF assms(1) r c] assms r c by (auto simp: s_box_lookup_def)
qed

lemma chunk_nth:
  "(j + 1) * 6 \<le> length input \<Longrightarrow> k < 6 \<Longrightarrow> take 6 (drop (j * 6) input) ! k = input ! (6 * j + k)"
  by (simp add: mult.commute)

lemma s_box_row_chunk:
  "(j + 1) * 6 \<le> length input \<Longrightarrow> s_box_row (take 6 (drop (j * 6) input)) = int (spec_row input j)"
  by (simp add: s_box_row_arith spec_row_def chunk_nth [of j input 5] mult.commute)

lemma s_box_col_chunk:
  "(j + 1) * 6 \<le> length input \<Longrightarrow> s_box_col (take 6 (drop (j * 6) input)) = int (spec_col input j)"
  by (simp add: s_box_col_arith spec_col_def chunk_nth [of j input 1] chunk_nth [of j input 2]
      chunk_nth [of j input 3] chunk_nth [of j input 4] mult.commute)

lemma shift_mask_bit:
  "((drop_bit n (v::int) AND 1) \<noteq> 0) = (v div 2 ^ n mod 2 = 1)"
  by (simp add: drop_bit_eq_div and_one_eq)

lemma mask_bit:
  "(((v::int) AND 1) \<noteq> 0) = (v mod 2 = 1)"
  by (simp add: and_one_eq)

lemma upt_0_4: "[0..<4] = [0, 1, 2, 3::nat]"
  by (simp add: upt_rec)

lemma s_box_step_Some:
  assumes "48 \<le> length input" and "i < 8" and "length out = 32"
  shows "s_box_step input i out =
           Some (out[4 * i := spec_s_box_bit input i 0, 4 * i + 1 := spec_s_box_bit input i 1,
                     4 * i + 2 := spec_s_box_bit input i 2, 4 * i + 3 := spec_s_box_bit input i 3])"
proof -
  have fits: "(i + 1) * 6 \<le> length input"
    using assms(1,2) by simp
  have row: "spec_row input i < 4" and col: "spec_col input i < 16"
    by (simp_all add: spec_row_def spec_col_def)
  have look: "s_box_lookup i (int (spec_row input i)) (int (spec_col input i))
                = Some (S_BOXES ! i ! spec_row input i ! spec_col input i)"
    using s_box_lookup_Some [of i "int (spec_row input i)" "int (spec_col input i)"] assms(2) row col
    by simp
  have idx: "4 * i + 3 < length out"
    using assms(2,3) by simp
  show ?thesis
    unfolding s_box_step_def Let_def s_box_row_chunk [OF fits] s_box_col_chunk [OF fits]
    using fits idx
    by (simp add: look upt_0_4 mask_bit drop_bit_eq_div spec_s_box_bit_def mult.commute)
qed

lemma s_box_loop:
  assumes "48 \<le> length input"
  shows "n \<le> 8 \<Longrightarrow> \<exists>out. for_loop [0..<n] (s_box_step input) (replicate 32 False) = Some out
            \<and> length out = 32 \<and> (\<forall>m < 4 * n. out ! m = spec_s_box_bit input (m div 4) (m mod 4))"
proof (induction n)
  case 0
  then show ?case by simp
next
  case (Suc n)
  then obtain out where loop: "for_loop [0..<n] (s_box_step input) (replicate 32 False) = Some out"
    and len: "length out = 32"
    and filled: "\<forall>m < 4 * n. out ! m = spec_s_box_bit input (m div 4) (m mod 4)"
    by auto
  define out' where "out' = out[4 * n := spec_s_box_bit input n 0, 4 * n + 1 := spec_s_box_bit input n 1,
                     4 * n + 2 := spec_s_box_bit input n 2, 4 * n + 3 := spec_s_box_bit input n 3]"
  have n8: "n < 8"
    using Suc.prems by simp
  have step: "s_box_step input n out = Some out'"
    unfolding out'_def using s_box_step_Some [OF assms n8 len] .
  have len': "length out' = 32"
    by (simp add: out'_def len)
  have "out' ! m = spec_s_box_bit input (m div 4) (m mod 4)" if bound: "m < 4 * Suc n" for m
  proof (cases "m < 4 * n")
    case True
    then have "out' ! m = out ! m"
      by (simp add: out'_def)
    then show ?thesis
      using filled True by simp
  next
    case False
    define k where "k = m - 4 * n"
    have k: "k < 4" and m: "m = 4 * n + k"
      using False bound by (simp_all add: k_def)
    have dm: "m div 4 = n" "m mod 4 = k"
      using k m by simp_all
    from k consider "k = 0" | "k = 1" | "k = 2" | "k = 3"
      by arith
    then have "out' ! (4 * n + k) = spec_s_box_bit input n k"
      using n8 by cases (simp_all add: out'_def len)
    then show ?thesis
      using dm m by simp
  qed
  then show ?case
    using loop step len' by (simp add: for_loop_snoc)
qed

lemma s_box_substitution_Some:
  assumes "48 \<le> length input"
  shows "s_box_substitution input = Some (spec_substitution input)"
proof -
  obtain out where loop: "for_loop [0..<8] (s_box_step input) (replicate 32 False) = Some out"
    and len: "length out = 32"
    and bits: "\<forall>m < 4 * 8. out ! m = spec_s_box_bit input (m div 4) (m mod 4)"
    using s_box_loop [OF assms, of 8] by auto
  have "out = spec_substitution input"
    using len bits by (intro nth_equalityI) (simp_all add: spec_substitution_def)
  then show ?thesis
    using loop by (simp add: s_box_substitution_def)
qed

lemma length_spec_substitution: "length (spec_substitution input) = 32"
  by (simp add: spec_substitution_def)

text \<open>
  Claim C6. For a 48-bit input, \<open>s_box_substitution\<close> returns the 32-bit block whose
  bits at positions \<open>4j .. 4j+3\<close> are the value \<open>S_BOXES[j][row][col]\<close>, most
  significant bit first, where for chunk \<open>j\<close> the row is \<open>2 * bit0 + bit5\<close> and the
  column is \<open>8 * bit1 + 4 * bit2 + 2 * bit3 + bit4\<close> of the six bits \<open>6j .. 6j+5\<close>.
\<close>

theorem s_box_substitution_spec:
  "length input = 48 \<Longrightarrow>
     s_box_substitution input = Some (spec_substitution input)
     \<and> length (spec_substitution input) = 32
     \<and> (\<forall>j < 8. \<forall>k < 4. spec_substitution input ! (4 * j + k)
           = (S_BOXES ! j ! spec_row input j ! spec_col input j div 2 ^ (3 - k) mod 2 = 1))"
proof -
  assume len: "length input = 48"
  have "spec_substitution input ! (4 * j + k)
           = (S_BOXES ! j ! spec_row input j ! spec_col input j div 2 ^ (3 - k) mod 2 = 1)"
    if "j < 8" and "k < 4" for j k
  proof -
    have "4 * j + k < 32" and "(4 * j + k) div 4 = j" and "(4 * j + k) mod 4 = k"
      using that by simp_all
    then show ?thesis
      by (simp add: spec_substitution_def spec_s_box_bit_def del: upt_Suc)
  qed
  then show ?thesis
    using len s_box_substitution_Some [of input] by (simp add: length_spec_substitution)
qed

theorem s_box_substitution_spec_witness:
  "length (replicate 48 True) = 48 \<and>
   s_box_substitution (replicate 48 True) = Some (spec_substitution (replicate 48 True)) \<and>
   spec_substitution (replicate 48 True)
     = [True, True, False, True, True, False, False, True, True, True, False, False, True, True, True, False,
        False, False, True, True, True, True, False, True, True, True, False, False, True, False, True, True]"
proof -
  have h: "length (replicate 48 True) = 48" by simp
  have v: "spec_substitution (replicate 48 True)
     = [True, True, False, True, True, False, False, True, True, True, False, False, True, True, True, False,
        False, False, True, True, True, True, False, True, True, True, False, False, True, False, True, True]"
    by code_simp
  show ?thesis
    using s_box_substitution_spec [OF h] v by simp
qed

text \<open>
  Claim C7. For every chunk \<open>j < 8\<close> of a 48-bit input, the row computed by the source
  lies in \<open>[0,3]\<close>, the column in \<open>[0,15]\<close>, the read \<open>S_BOXES[j][row][col]\<close> stays
  inside the array, and the value read lies in \<open>[0,15]\<close>.
\<close>

theorem s_box_lookup_bounds:
  "length input = 48 \<Longrightarrow> j < 8 \<Longrightarrow>
     0 \<le> s_box_row (take 6 (drop (j * 6) input)) \<and> s_box_row (take 6 (drop (j * 6) input)) \<le> 3
     \<and> 0 \<le> s_box_col (take 6 (drop (j * 6) input)) \<and> s_box_col (take 6 (drop (j * 6) input)) \<le> 15
     \<and> (\<exists>v. s_box_lookup j (s_box_row (take 6 (drop (j * 6) input)))
                            (s_box_col (take 6 (drop (j * 6) input))) = Some v
              \<and> 0 \<le> v \<and> v \<le> 15)"
  using s_box_lookup_Some [of j "s_box_row (take 6 (drop (j * 6) input))"
                               "s_box_col (take 6 (drop (j * 6) input))"]
        s_box_row_bounds [of "take 6 (drop (j * 6) input)"]
        s_box_col_bounds [of "take 6 (drop (j * 6) input)"]
  by simp

theorem s_box_lookup_bounds_witness:
  "length (replicate 48 True) = 48 \<and> (7::nat) < 8 \<and>
     s_box_row (take 6 (drop (7 * 6) (replicate 48 True))) = 3
     \<and> s_box_col (take 6 (drop (7 * 6) (replicate 48 True))) = 15
     \<and> (\<exists>v. s_box_lookup 7 (s_box_row (take 6 (drop (7 * 6) (replicate 48 True))))
                            (s_box_col (take 6 (drop (7 * 6) (replicate 48 True)))) = Some v
              \<and> 0 \<le> v \<and> v \<le> 15)"
proof -
  have h1: "length (replicate 48 True) = 48" by simp
  have h2: "(7::nat) < 8" by simp
  have r: "s_box_row (take 6 (drop (7 * 6) (replicate 48 True))) = 3"
    by (simp add: s_box_row_arith)
  have c: "s_box_col (take 6 (drop (7 * 6) (replicate 48 True))) = 15"
    by (simp add: s_box_col_arith)
  show ?thesis
    using s_box_lookup_bounds [OF h1 h2] r c by simp
qed

section \<open>Key schedule rounds\<close>

lemma circular_left_shift_rotate:
  assumes "0 \<le> s" and "s < int (length xs)"
  shows "circular_left_shift xs s = Some (rotate (nat s) xs)"
proof -
  have "nat s mod length xs = nat s"
    using assms by simp
  then have "rotate (nat s) xs = drop (nat s) xs @ take (nat s) xs"
    using rotate_drop_take [of "nat s" xs] by simp
  then show ?thesis
    using assms by (simp add: circular_left_shift_def)
qed

lemma copy_into_halves:
  assumes "length c = 28" and "length d = 28"
  shows "(copy_into c (replicate 56 False) 0 \<bind> (\<lambda>cb. copy_into d cb 28)) = Some (c @ d)"
  using assms by (simp add: copy_into_def)

lemma SHIFT_SCHEDULE_entries:
  "length SHIFT_SCHEDULE = 16 \<and> list_all (\<lambda>s. s = 1 \<or> s = 2) SHIFT_SCHEDULE"
  by (simp add: SHIFT_SCHEDULE_def)

lemma SHIFT_SCHEDULE_nth:
  assumes "i < 16"
  shows "SHIFT_SCHEDULE ! i = 1 \<or> SHIFT_SCHEDULE ! i = 2"
proof -
  have "SHIFT_SCHEDULE ! i \<in> set SHIFT_SCHEDULE"
    using assms SHIFT_SCHEDULE_entries by simp
  then show ?thesis
    using SHIFT_SCHEDULE_entries by (simp add: list_all_iff)
qed

lemma SHIFT_SCHEDULE_sum: "sum_list SHIFT_SCHEDULE = 28"
  by (simp add: SHIFT_SCHEDULE_def)

text \<open>The total rotation applied by the first \<open>n\<close> rounds.\<close>

lemma shift_total_Suc:
  assumes "n < 16"
  shows "nat (sum_list (take (Suc n) SHIFT_SCHEDULE))
           = nat (SHIFT_SCHEDULE ! n) + nat (sum_list (take n SHIFT_SCHEDULE))"
proof -
  have "\<forall>s \<in> set (take n SHIFT_SCHEDULE). 0 \<le> s"
  proof
    fix s assume "s \<in> set (take n SHIFT_SCHEDULE)"
    then have "s \<in> set SHIFT_SCHEDULE"
      by (rule in_set_takeD)
    then have "s = 1 \<or> s = 2"
      using SHIFT_SCHEDULE_entries by (simp add: list_all_iff)
    then show "0 \<le> s" by auto
  qed
  then have "0 \<le> sum_list (take n SHIFT_SCHEDULE)"
    by (intro sum_list_nonneg) simp
  moreover have "0 \<le> SHIFT_SCHEDULE ! n"
    using SHIFT_SCHEDULE_nth [OF assms] by auto
  moreover have "take (Suc n) SHIFT_SCHEDULE = take n SHIFT_SCHEDULE @ [SHIFT_SCHEDULE ! n]"
    using assms SHIFT_SCHEDULE_entries by (simp add: take_Suc_conv_app_nth)
  ultimately show ?thesis
    by (simp add: nat_add_distrib)
qed

lemma key_round_Some:
  assumes "length c = 28" and "length d = 28" and "length rks = 16" and "i < 16"
  shows "\<exists>k. length k = 48 \<and>
           key_round i (c, d, rks)
             = Some (rotate (nat (SHIFT_SCHEDULE ! i)) c, rotate (nat (SHIFT_SCHEDULE ! i)) d, rks[i := k])"
proof -
  let ?s = "SHIFT_SCHEDULE ! i"
  have s: "0 \<le> ?s" "?s < 28"
    using SHIFT_SCHEDULE_nth [OF assms(4)] by auto
  have rc: "circular_left_shift c ?s = Some (rotate (nat ?s) c)"
    using circular_left_shift_rotate [of ?s c] s assms(1) by simp
  have rd: "circular_left_shift d ?s = Some (rotate (nat ?s) d)"
    using circular_left_shift_rotate [of ?s d] s assms(2) by simp
  have cp: "(copy_into (rotate (nat ?s) c) (replicate 56 False) 0
               \<bind> (\<lambda>cb. copy_into (rotate (nat ?s) d) cb 28))
            = Some (rotate (nat ?s) c @ rotate (nat ?s) d)"
    using copy_into_halves [of "rotate (nat ?s) c" "rotate (nat ?s) d"] assms(1,2) by simp
  have pc2: "apply_permutation (rotate (nat ?s) c @ rotate (nat ?s) d) PC2_TABLE 48
               = Some (map (\<lambda>j. (rotate (nat ?s) c @ rotate (nat ?s) d) ! nat (PC2_TABLE ! j - 1)) [0..<48])"
    using apply_PC2 [of "rotate (nat ?s) c @ rotate (nat ?s) d"] assms(1,2) by simp
  have idx: "i < length SHIFT_SCHEDULE" "i < length rks"
    using assms(3,4) SHIFT_SCHEDULE_entries by simp_all
  have "key_round i (c, d, rks)
          = Some (rotate (nat ?s) c, rotate (nat ?s) d,
                  rks[i := map (\<lambda>j. (rotate (nat ?s) c @ rotate (nat ?s) d) ! nat (PC2_TABLE ! j - 1)) [0..<48]])"
    using idx rc rd cp pc2 by (simp add: key_round_def copy_into_def assms(1,2))
  then show ?thesis
    by (intro exI [of _ "map (\<lambda>j. (rotate (nat ?s) c @ rotate (nat ?s) d) ! nat (PC2_TABLE ! j - 1)) [0..<48]"]) simp
qed

lemma key_loop:
  assumes "length c = 28" and "length d = 28"
  shows "n \<le> 16 \<Longrightarrow> \<exists>rks. for_loop [0..<n] key_round (c, d, replicate 16 [])
            = Some (rotate (nat (sum_list (take n SHIFT_SCHEDULE))) c,
                    rotate (nat (sum_list (take n SHIFT_SCHEDULE))) d, rks)
          \<and> length rks = 16 \<and> (\<forall>i < n. length (rks ! i) = 48)"
proof (induction n)
  case 0
  then show ?case by simp
next
  case (Suc n)
  let ?t = "nat (sum_list (take n SHIFT_SCHEDULE))"
  from Suc obtain rks where loop: "for_loop [0..<n] key_round (c, d, replicate 16 [])
            = Some (rotate ?t c, rotate ?t d, rks)"
    and len: "length rks = 16" and keys: "\<forall>i < n. length (rks ! i) = 48"
    by auto
  have n16: "n < 16"
    using Suc.prems by simp
  obtain k where k: "length k = 48"
    and step: "key_round n (rotate ?t c, rotate ?t d, rks)
                 = Some (rotate (nat (SHIFT_SCHEDULE ! n)) (rotate ?t c),
                         rotate (nat (SHIFT_SCHEDULE ! n)) (rotate ?t d), rks[n := k])"
    using key_round_Some [of "rotate ?t c" "rotate ?t d" rks n] assms len n16 by auto
  have keys': "\<forall>i < Suc n. length (rks[n := k] ! i) = 48"
    using keys k len n16 by (auto simp: nth_list_update)
  show ?case
    using loop step keys' len
    by (simp add: for_loop_snoc rotate_rotate shift_total_Suc [OF n16] del: take_Suc_Cons)
qed

lemma key_schedule_Some:
  assumes "64 \<le> length key"
  shows "\<exists>pc1_key rks. apply_permutation key PC1_TABLE 56 = Some pc1_key
           \<and> key_schedule key = Some (take 28 pc1_key, drop 28 pc1_key, rks)
           \<and> length rks = 16 \<and> (\<forall>i < 16. length (rks ! i) = 48)"
proof -
  let ?pc1 = "map (\<lambda>i. key ! nat (PC1_TABLE ! i - 1)) [0..<56]"
  have pc1: "apply_permutation key PC1_TABLE 56 = Some ?pc1"
    using apply_PC1 [OF assms] .
  have lc: "length (take 28 ?pc1) = 28" and ld: "length (drop 28 ?pc1) = 28"
    by simp_all
  have total: "nat (sum_list (take 16 SHIFT_SCHEDULE)) = 28"
    using SHIFT_SCHEDULE_sum SHIFT_SCHEDULE_entries by simp
  obtain rks where loop: "for_loop [0..<16] key_round (take 28 ?pc1, drop 28 ?pc1, replicate 16 [])
            = Some (rotate 28 (take 28 ?pc1), rotate 28 (drop 28 ?pc1), rks)"
    and len: "length rks = 16" and keys: "\<forall>i < 16. length (rks ! i) = 48"
    using key_loop [OF lc ld, of 16] unfolding total by auto
  have "rotate 28 (take 28 ?pc1) = take 28 ?pc1" and "rotate 28 (drop 28 ?pc1) = drop 28 ?pc1"
    using lc ld by (simp_all add: rotate_id del: take_map drop_map)
  then have "key_schedule key = Some (take 28 ?pc1, drop 28 ?pc1, rks)"
    using loop pc1 by (simp add: key_schedule_def del: take_map drop_map)
  then show ?thesis
    using pc1 len keys by blast
qed

section \<open>Feistel rounds\<close>

lemma decrypt_round_eq: "decrypt_round = encrypt_round"
  by (intro ext) (simp add: decrypt_round_def encrypt_round_def)

lemma des_decrypt_eq:
  "des_decrypt block key
     = (generate_round_keys key \<bind> (\<lambda>round_keys. encrypt_transform block (rev round_keys)))"
  by (simp add: des_decrypt_def encrypt_transform_def decrypt_round_eq)

lemma encrypt_round_feistel:
  "encrypt_round round_keys i (l, r)
     = (if i < length round_keys
        then feistel_f r (round_keys ! i) \<bind> (\<lambda>p. xor_bits l p \<bind> (\<lambda>r'. Some (r, r')))
        else None)"
  by (simp add: encrypt_round_def feistel_f_def)

lemma xor_bits_length: "xor_bits a b = Some x \<Longrightarrow> length x = length a"
  by (auto simp: xor_bits_def split: if_splits)

lemma xor_bits_cancel:
  assumes "length p = length l" and "xor_bits l p = Some x"
  shows "xor_bits x p = Some l"
proof -
  have x: "x = map (\<lambda>i. l ! i \<noteq> p ! i) [0..<length l]"
    using assms by (simp add: xor_bits_def)
  have "map (\<lambda>i. x ! i \<noteq> p ! i) [0..<length x] = l"
    unfolding x by (intro nth_equalityI) auto
  then show ?thesis
    using assms(1) x by (simp add: xor_bits_def)
qed

lemma feistel_f_Some:
  assumes "32 \<le> length r" and "48 \<le> length k"
  shows "\<exists>p. feistel_f r k = Some p \<and> length p = 32"
proof -
  let ?e = "map (\<lambda>i. r ! nat (E_TABLE ! i - 1)) [0..<48]"
  let ?x = "map (\<lambda>i. ?e ! i \<noteq> k ! i) [0..<length ?e]"
  have e: "apply_permutation r E_TABLE 48 = Some ?e"
    using apply_E [OF assms(1)] .
  have x: "xor_bits ?e k = Some ?x"
    using assms(2) by (simp add: xor_bits_def)
  have s: "s_box_substitution ?x = Some (spec_substitution ?x)"
    by (intro s_box_substitution_Some) simp
  have p: "apply_permutation (spec_substitution ?x) P_TABLE 32
             = Some (map (\<lambda>i. spec_substitution ?x ! nat (P_TABLE ! i - 1)) [0..<32])"
    by (intro apply_P) (simp add: length_spec_substitution)
  show ?thesis
    unfolding feistel_f_def e by (simp only: x s p bind.bind_lunit) simp
qed

lemma encrypt_round_length:
  assumes "encrypt_round ks i (l, r) = Some (l', r')"
  shows "l' = r \<and> length r' = length l"
  using assms
  by (auto simp: encrypt_round_feistel bind_eq_Some_conv xor_bits_length split: if_splits)

lemma encrypt_round_Some:
  assumes "length l = 32" and "length r = 32" and "i < length ks" and "48 \<le> length (ks ! i)"
  shows "\<exists>r'. encrypt_round ks i (l, r) = Some (r, r') \<and> length r' = 32"
proof -
  obtain p where p: "feistel_f r (ks ! i) = Some p" and lp: "length p = 32"
    using feistel_f_Some [of r "ks ! i"] assms(2,4) by auto
  then show ?thesis
    using assms(1,3) by (simp add: encrypt_round_feistel xor_bits_def)
qed

lemma encrypt_round_invert:
  assumes "length l = 32" and "length r = 32"
    and "i < length ks" and "48 \<le> length (ks ! i)"
    and "j < length ks'" and "ks' ! j = ks ! i"
    and "encrypt_round ks i (l, r) = Some (l', r')"
  shows "encrypt_round ks' j (r', l') = Some (r, l)"
proof -
  obtain p where p: "feistel_f r (ks ! i) = Some p" and lp: "length p = 32"
    using feistel_f_Some [of r "ks ! i"] assms(2,4) by auto
  have l': "l' = r" and x: "xor_bits l p = Some r'"
    using assms(3,7) p by (auto simp: encrypt_round_feistel bind_eq_Some_conv)
  have "xor_bits r' p = Some l"
    using xor_bits_cancel [OF _ x] lp assms(1) by simp
  then show ?thesis
    using assms(5,6) p l' by (simp add: encrypt_round_feistel)
qed

lemma rounds_length:
  "for_loop is (encrypt_round ks) (l, r) = Some (l', r') \<Longrightarrow> length l = 32 \<Longrightarrow> length r = 32
     \<Longrightarrow> length l' = 32 \<and> length r' = 32"
proof (induction "is" arbitrary: l r)
  case Nil
  then show ?case by simp
next
  case (Cons i "is")
  from Cons.prems(1) obtain l1 r1 where step: "encrypt_round ks i (l, r) = Some (l1, r1)"
    and rest: "for_loop is (encrypt_round ks) (l1, r1) = Some (l', r')"
    by (auto split: option.splits)
  have "length l1 = 32" and "length r1 = 32"
    using encrypt_round_length [OF step] Cons.prems(2,3) by simp_all
  then show ?case
    using Cons.IH [OF rest] by simp
qed

lemma rounds_Some:
  assumes "\<forall>i < n. i < length ks \<and> 48 \<le> length (ks ! i)"
  shows "m \<le> n \<Longrightarrow> length l = 32 \<Longrightarrow> length r = 32
     \<Longrightarrow> \<exists>l' r'. for_loop [0..<m] (encrypt_round ks) (l, r) = Some (l', r')"
proof (induction m)
  case 0
  then show ?case by simp
next
  case (Suc m)
  then obtain l1 r1 where loop: "for_loop [0..<m] (encrypt_round ks) (l, r) = Some (l1, r1)"
    by auto
  have len: "length l1 = 32 \<and> length r1 = 32"
    using rounds_length [OF loop] Suc.prems by simp
  have "m < length ks \<and> 48 \<le> length (ks ! m)"
    using assms Suc.prems(1) by simp
  then obtain r' where "encrypt_round ks m (l1, r1) = Some (r1, r')"
    using encrypt_round_Some [of l1 r1 m ks] len by auto
  then show ?case
    using loop by (simp add: for_loop_snoc)
qed

lemma rounds_invert:
  assumes "length ks = 16" and "\<forall>k \<in> set ks. 48 \<le> length k"
  shows "n \<le> 16 \<Longrightarrow> length l = 32 \<Longrightarrow> length r = 32
     \<Longrightarrow> for_loop [0..<n] (encrypt_round ks) (l, r) = Some (l', r')
     \<Longrightarrow> for_loop [16 - n..<16] (encrypt_round (rev ks)) (r', l') = Some (r, l)"
proof (induction n arbitrary: l' r')
  case 0
  then show ?case by simp
next
  case (Suc n)
  from Suc.prems(4) obtain l1 r1 where loop: "for_loop [0..<n] (encrypt_round ks) (l, r) = Some (l1, r1)"
    and step: "encrypt_round ks n (l1, r1) = Some (l', r')"
    by (auto simp: for_loop_snoc split: option.splits)
  have len: "length l1 = 32" "length r1 = 32"
    using rounds_length [OF loop] Suc.prems by simp_all
  have n16: "n < 16"
    using Suc.prems(1) by simp
  have key: "48 \<le> length (ks ! n)"
    using assms n16 by simp
  have revkey: "rev ks ! (15 - n) = ks ! n"
    using assms(1) n16 by (simp add: rev_nth)
  have undo: "encrypt_round (rev ks) (15 - n) (r', l') = Some (r1, l1)"
    using encrypt_round_invert [OF len _ key _ revkey step] assms(1) n16 by simp
  have rest: "for_loop [16 - n..<16] (encrypt_round (rev ks)) (r1, l1) = Some (r, l)"
    using Suc.IH [OF _ Suc.prems(2,3) loop] n16 by simp
  have "Suc (15 - n) = 16 - n" and "15 - n < 16"
    using n16 by simp_all
  then have "[15 - n..<16] = (15 - n) # [16 - n..<16]"
    using upt_conv_Cons [of "15 - n" 16] by simp
  then have "[16 - Suc n..<16] = (15 - n) # [16 - n..<16]"
    by simp
  then show ?case
    using undo rest by simp
qed

lemma copy_into_block:
  assumes "length a = 32" and "length b = 32"
  shows "(copy_into a (replicate 64 False) 0 \<bind> (\<lambda>cb. copy_into b cb 32)) = Some (a @ b)"
  using assms by (simp add: copy_into_def)

lemma encrypt_transform_unfold:
  assumes "apply_permutation block IP_TABLE 64 = Some ip"
    and "for_loop [0..<16] (encrypt_round ks) (take 32 ip, drop 32 ip) = Some (l, r)"
    and "length l = 32" and "length r = 32"
  shows "encrypt_transform block ks = apply_permutation (r @ l) IP_INV_TABLE 64"
proof -
  have "(copy_into r (replicate 64 False) 0 \<bind> (\<lambda>cb. copy_into l cb 32)) = Some (r @ l)"
    using copy_into_block [OF assms(4,3)] .
  then have "(copy_into r (replicate 64 False) 0
                \<bind> (\<lambda>cb. copy_into l cb 32 \<bind> (\<lambda>combined. apply_permutation combined IP_INV_TABLE 64)))
              = apply_permutation (r @ l) IP_INV_TABLE 64"
    by (auto simp: bind_eq_Some_conv)
  then show ?thesis
    unfolding encrypt_transform_def assms(1) by (simp add: assms(2))
qed

lemma transform_round_trip:
  assumes "length block = 64" and "length ks = 16" and "\<forall>k \<in> set ks. 48 \<le> length k"
  shows "(encrypt_transform block ks \<bind> (\<lambda>c. encrypt_transform c (rev ks))) = Some block"
proof -
  obtain ip where ip: "apply_permutation block IP_TABLE 64 = Some ip"
    using apply_IP [of block] assms(1) by simp
  have lip: "length ip = 64"
    using apply_permutation_length [OF ip] .
  have inv_ip: "apply_permutation ip IP_INV_TABLE 64 = Some block"
    using IP_INV_after_IP [OF assms(1)] ip by simp
  have keys: "\<forall>i < 16. i < length ks \<and> 48 \<le> length (ks ! i)"
    using assms(2,3) by simp
  have l0: "length (take 32 ip) = 32" and r0: "length (drop 32 ip) = 32"
    using lip by simp_all
  obtain l16 r16 where fwd: "for_loop [0..<16] (encrypt_round ks) (take 32 ip, drop 32 ip) = Some (l16, r16)"
    using rounds_Some [OF keys _ l0 r0, of 16] by auto
  have len16: "length l16 = 32" "length r16 = 32"
    using rounds_length [OF fwd l0 r0] by simp_all
  have enc: "encrypt_transform block ks = apply_permutation (r16 @ l16) IP_INV_TABLE 64"
    using encrypt_transform_unfold [OF ip fwd len16] .
  obtain c where c: "apply_permutation (r16 @ l16) IP_INV_TABLE 64 = Some c"
    using apply_IP_INV [of "r16 @ l16"] len16 by simp
  have ip_c: "apply_permutation c IP_TABLE 64 = Some (r16 @ l16)"
    using IP_after_IP_INV [of "r16 @ l16"] len16 c by simp
  have bwd: "for_loop [0..<16] (encrypt_round (rev ks)) (r16, l16) = Some (drop 32 ip, take 32 ip)"
    using rounds_invert [OF assms(2,3) _ l0 r0 fwd] by simp
  have halves: "take 32 (r16 @ l16) = r16" "drop 32 (r16 @ l16) = l16"
    using len16 by simp_all
  have "for_loop [0..<16] (encrypt_round (rev ks)) (take 32 (r16 @ l16), drop 32 (r16 @ l16))
          = Some (drop 32 ip, take 32 ip)"
    using bwd by (simp only: halves)
  from encrypt_transform_unfold [OF ip_c this r0 l0]
  have "encrypt_transform c (rev ks) = apply_permutation (take 32 ip @ drop 32 ip) IP_INV_TABLE 64" .
  then have "encrypt_transform c (rev ks) = Some block"
    using inv_ip by simp
  then show ?thesis
    using enc c by simp
qed

lemma generate_round_keys_Some:
  assumes "64 \<le> length key"
  shows "\<exists>rks. generate_round_keys key = Some rks \<and> length rks = 16 \<and> (\<forall>k \<in> set rks. length k = 48)"
proof -
  obtain pc1_key rks where ks: "key_schedule key = Some (take 28 pc1_key, drop 28 pc1_key, rks)"
    and len: "length rks = 16" and keys: "\<forall>i < 16. length (rks ! i) = 48"
    using key_schedule_Some [OF assms] by blast
  have "\<forall>k \<in> set rks. length k = 48"
    using len keys by (auto simp: in_set_conv_nth)
  then show ?thesis
    using ks len by (simp add: generate_round_keys_def)
qed

lemma des_round_trip:
  assumes "length block = 64" and "length key = 64"
  shows "(des_encrypt block key \<bind> (\<lambda>c. des_decrypt c key)) = Some block"
proof -
  obtain rks where rks: "generate_round_keys key = Some rks" and len: "length rks = 16"
    and keys: "\<forall>k \<in> set rks. length k = 48"
    using generate_round_keys_Some [of key] assms(2) by auto
  have "\<forall>k \<in> set rks. 48 \<le> length k"
    using keys by simp
  from transform_round_trip [OF assms(1) len this] show ?thesis
    by (simp add: des_encrypt_def des_decrypt_eq rks)
qed

section \<open>Bits beyond the declared lengths\<close>

lemma apply_permutation_take:
  assumes "n \<le> length T" and "list_all (\<lambda>e. 1 \<le> e \<and> e \<le> int m) (take n T)" and "m \<le> length input"
  shows "apply_permutation (take m input) T n = apply_permutation input T n"
proof -
  have rng: "list_all (\<lambda>i. 1 \<le> T ! i \<and> T ! i \<le> int m) [0..<n]"
    using list_all_upt_nth [OF assms(1), of "\<lambda>e. 1 \<le> e \<and> e \<le> int m"] assms(2) by simp
  have "map (\<lambda>i. take m input ! nat (T ! i - 1)) [0..<n] = map (\<lambda>i. input ! nat (T ! i - 1)) [0..<n]"
  proof (rule map_cong [OF refl])
    fix i assume "i \<in> set [0..<n]"
    then have "1 \<le> T ! i \<and> T ! i \<le> int m"
      using rng by (simp add: list_all_iff)
    then have "nat (T ! i - 1) < m"
      by auto
    then show "take m input ! nat (T ! i - 1) = input ! nat (T ! i - 1)"
      by simp
  qed
  moreover have "apply_permutation (take m input) T n = Some (map (\<lambda>i. take m input ! nat (T ! i - 1)) [0..<n])"
    using apply_permutation_Some [OF assms(1,2), of "take m input"] assms(3) by simp
  moreover have "apply_permutation input T n = Some (map (\<lambda>i. input ! nat (T ! i - 1)) [0..<n])"
    using apply_permutation_Some [OF assms] .
  ultimately show ?thesis
    by simp
qed

lemma key_schedule_take:
  assumes "64 \<le> length key"
  shows "key_schedule (take 64 key) = key_schedule key"
proof -
  have "apply_permutation (take 64 key) PC1_TABLE 56 = apply_permutation key PC1_TABLE 56"
    using apply_permutation_take [of 56 PC1_TABLE 64 key] PC1_TABLE_range assms by simp
  then show ?thesis
    by (simp add: key_schedule_def)
qed

lemma xor_bits_take:
  assumes "length e \<le> length k"
  shows "xor_bits e (take (length e) k) = xor_bits e k"
  using assms by (simp add: xor_bits_def)

lemma feistel_f_take:
  assumes "48 \<le> length k"
  shows "feistel_f r (take 48 k) = feistel_f r k"
proof (cases "apply_permutation r E_TABLE 48")
  case None
  then show ?thesis by (simp add: feistel_f_def)
next
  case (Some e)
  then have "length e = 48"
    by (rule apply_permutation_length)
  then have "xor_bits e (take 48 k) = xor_bits e k"
    using xor_bits_take [of e k] assms by simp
  then show ?thesis
    using Some by (simp add: feistel_f_def)
qed

lemma encrypt_round_take:
  assumes "16 \<le> length rks" and "i < 16" and "48 \<le> length (rks ! i)"
  shows "encrypt_round (map (take 48) (take 16 rks)) i st = encrypt_round rks i st"
proof -
  have "map (take 48) (take 16 rks) ! i = take 48 (rks ! i)"
    using assms(1,2) by simp
  then show ?thesis
    using assms feistel_f_take [OF assms(3)]
    by (cases st) (simp add: encrypt_round_feistel)
qed

lemma encrypt_transform_take:
  assumes "64 \<le> length block" and "16 \<le> length rks" and "\<forall>i < 16. 48 \<le> length (rks ! i)"
  shows "encrypt_transform (take 64 block) (map (take 48) (take 16 rks)) = encrypt_transform block rks"
proof -
  have ip: "apply_permutation (take 64 block) IP_TABLE 64 = apply_permutation block IP_TABLE 64"
    using apply_permutation_take [of 64 IP_TABLE 64 block] IP_TABLE_range assms(1) by simp
  have "for_loop [0..<16] (encrypt_round (map (take 48) (take 16 rks))) st
          = for_loop [0..<16] (encrypt_round rks) st" for st
    using assms(2,3) by (intro for_loop_cong encrypt_round_take) simp_all
  then show ?thesis
    by (simp add: encrypt_transform_def ip)
qed

lemma encrypt_transform_Some:
  assumes "64 \<le> length block" and "16 \<le> length rks" and "\<forall>i < 16. 48 \<le> length (rks ! i)"
  shows "\<exists>c. encrypt_transform block rks = Some c \<and> length c = 64"
proof -
  obtain ip where ip: "apply_permutation block IP_TABLE 64 = Some ip"
    using apply_IP [OF assms(1)] by simp
  have lip: "length ip = 64"
    using apply_permutation_length [OF ip] .
  have keys: "\<forall>i < 16. i < length rks \<and> 48 \<le> length (rks ! i)"
    using assms(2,3) by simp
  have l0: "length (take 32 ip) = 32" and r0: "length (drop 32 ip) = 32"
    using lip by simp_all
  obtain l r where loop: "for_loop [0..<16] (encrypt_round rks) (take 32 ip, drop 32 ip) = Some (l, r)"
    using rounds_Some [OF keys _ l0 r0, of 16] by auto
  have len: "length l = 32" "length r = 32"
    using rounds_length [OF loop l0 r0] by simp_all
  have "encrypt_transform block rks = apply_permutation (r @ l) IP_INV_TABLE 64"
    using encrypt_transform_unfold [OF ip loop len] .
  then show ?thesis
    using apply_IP_INV [of "r @ l"] len by simp
qed

section \<open>Key schedule\<close>

text \<open>
  Claim C5. For every 64-bit master key, \<open>generate_round_keys\<close> returns a sequence of
  exactly 16 round keys, and each of them is exactly 48 bits long.
\<close>

theorem generate_round_keys_shape:
  "length key = 64 \<Longrightarrow>
     \<exists>round_keys. generate_round_keys key = Some round_keys
        \<and> length round_keys = 16 \<and> (\<forall>k \<in> set round_keys. length k = 48)"
  using generate_round_keys_Some [of key] by simp

theorem generate_round_keys_shape_witness:
  "length (replicate 64 True) = 64
   \<and> (\<exists>round_keys. generate_round_keys (replicate 64 True) = Some round_keys
        \<and> length round_keys = 16 \<and> list_all (\<lambda>k. length k = 48) round_keys)"
proof -
  have h: "length (replicate 64 True) = 64" by simp
  from generate_round_keys_shape [OF h] obtain round_keys
    where "generate_round_keys (replicate 64 True) = Some round_keys"
      and "length round_keys = 16" and "\<forall>k \<in> set round_keys. length k = 48"
    by blast
  then show ?thesis
    using h by (auto simp: list_all_iff)
qed

text \<open>
  Claim C10. The entries of \<open>SHIFT_SCHEDULE\<close> sum to 28, and when the loop of
  \<open>generate_round_keys\<close> has run its 16 rounds on a 64-bit key, the C half and the D
  half are again the two 28-bit halves of the PC-1 output they started from.
\<close>

theorem key_schedule_full_rotation:
  "sum_list SHIFT_SCHEDULE = 28
   \<and> (length key = 64 \<longrightarrow>
        (\<exists>pc1_key round_keys. apply_permutation key PC1_TABLE 56 = Some pc1_key
           \<and> key_schedule key = Some (take 28 pc1_key, drop 28 pc1_key, round_keys)))"
proof -
  have "\<exists>pc1_key round_keys. apply_permutation key PC1_TABLE 56 = Some pc1_key
           \<and> key_schedule key = Some (take 28 pc1_key, drop 28 pc1_key, round_keys)"
    if "length key = 64"
    using key_schedule_Some [of key] that by auto
  then show ?thesis
    using SHIFT_SCHEDULE_sum by simp
qed

theorem key_schedule_full_rotation_witness:
  "length (replicate 32 True @ replicate 32 False) = 64
   \<and> (\<exists>pc1_key round_keys.
         apply_permutation (replicate 32 True @ replicate 32 False) PC1_TABLE 56 = Some pc1_key
         \<and> key_schedule (replicate 32 True @ replicate 32 False)
             = Some (take 28 pc1_key, drop 28 pc1_key, round_keys))"
proof -
  have h: "length (replicate 32 True @ replicate 32 False) = 64" by simp
  show ?thesis
    using h key_schedule_full_rotation [of "replicate 32 True @ replicate 32 False"] by simp
qed

section \<open>Decryption\<close>

text \<open>
  Claim C3. \<open>des_decrypt\<close> computes the block transform of \<open>des_encrypt\<close> on the round
  keys in reversed order: its second copy of the round pipeline differs from the one of
  \<open>des_encrypt\<close> in nothing but the order of the round keys.
\<close>

theorem des_decrypt_is_reversed_transform:
  "des_decrypt block key
     = (generate_round_keys key \<bind> (\<lambda>round_keys. encrypt_transform block (rev round_keys)))
   \<and> des_encrypt block key
     = (generate_round_keys key \<bind> (\<lambda>round_keys. encrypt_transform block round_keys))"
  by (simp add: des_decrypt_eq des_encrypt_def)

text \<open>
  Claim C2. For every 64-bit block and every 64-bit master key, decrypting the encryption
  of the block recovers the block: the transform with the round keys of the key in forward
  order, followed by the transform with the same round keys in reversed order, is the
  identity.
\<close>

theorem decrypt_of_encrypt:
  "length block = 64 \<Longrightarrow> length key = 64 \<Longrightarrow>
     (des_encrypt block key \<bind> (\<lambda>c. des_decrypt c key)) = Some block
     \<and> (\<exists>round_keys. generate_round_keys key = Some round_keys
           \<and> (encrypt_transform block round_keys
                \<bind> (\<lambda>c. encrypt_transform c (rev round_keys))) = Some block)"
proof -
  assume b: "length block = 64" and k: "length key = 64"
  obtain rks where rks: "generate_round_keys key = Some rks" and len: "length rks = 16"
    and keys: "\<forall>k \<in> set rks. length k = 48"
    using generate_round_keys_Some [of key] k by auto
  have "\<forall>k \<in> set rks. 48 \<le> length k"
    using keys by simp
  then have "(encrypt_transform block rks \<bind> (\<lambda>c. encrypt_transform c (rev rks))) = Some block"
    using transform_round_trip [OF b len] by simp
  then show ?thesis
    using rks des_round_trip [OF b k] by simp
qed

theorem decrypt_of_encrypt_witness:
  "length (replicate 64 True) = 64
   \<and> des_encrypt (replicate 64 True) (replicate 64 True) = Some
       [False, True, True, True,  False, False, True, True,
        False, True, False, True,  True, False, False, True,
        True, False, True, True,  False, False, True, False,
        False, False, False, True,  False, True, True, False,
        False, False, True, True,  True, True, True, False,
        False, True, False, False,  True, True, True, False,
        True, True, False, True,  True, True, False, False,
        False, True, False, True,  True, False, False, False]
   \<and> des_decrypt
       [False, True, True, True,  False, False, True, True,
        False, True, False, True,  True, False, False, True,
        True, False, True, True,  False, False, True, False,
        False, False, False, True,  False, True, True, False,
        False, False, True, True,  True, True, True, False,
        False, True, False, False,  True, True, True, False,
        True, True, False, True,  True, True, False, False,
        False, True, False, True,  True, False, False, False] (replicate 64 True)
       = Some (replicate 64 True)"
proof -
  have h: "length (replicate 64 True) = 64" by simp
  have enc: "des_encrypt (replicate 64 True) (replicate 64 True) = Some
       [False, True, True, True,  False, False, True, True,
        False, True, False, True,  True, False, False, True,
        True, False, True, True,  False, False, True, False,
        False, False, False, True,  False, True, True, False,
        False, False, True, True,  True, True, True, False,
        False, True, False, False,  True, True, True, False,
        True, True, False, True,  True, True, False, False,
        False, True, False, True,  True, False, False, False]"
    by code_simp
  show ?thesis
    using h enc decrypt_of_encrypt [OF h h] by simp
qed

section \<open>Inputs of other lengths\<close>

text \<open>
  Claim C4, as stated: a key, block or round-key sequence of the wrong length is rejected
  with a failure outcome and never truncated. It fails on inputs that are too long: a
  65-bit key whose last bit is set yields the round keys of the all-zero key, and a 65-bit
  block with 17 round keys of 49 bits yields the ciphertext of the all-zero block under
  the all-zero key.
\<close>

theorem no_length_check_counterexample:
  "length (replicate 64 False @ [True]) \<noteq> 64
   \<and> generate_round_keys (replicate 64 False @ [True]) = Some (replicate 16 (replicate 48 False))
   \<and> length (replicate 17 (replicate 48 False @ [True])) \<noteq> 16
   \<and> encrypt_transform (replicate 64 False @ [True]) (replicate 17 (replicate 48 False @ [True])) = Some
       [True, False, False, False,  True, True, False, False,
        True, False, True, False,  False, True, True, False,
        False, True, False, False,  True, True, False, True,
        True, True, True, False,  True, False, False, True,
        True, True, False, False,  False, False, False, True,
        True, False, True, True,  False, False, False, True,
        False, False, True, False,  False, False, True, True,
        True, False, True, False,  False, True, True, True]"
  by code_simp

text \<open>
  Claim C4, amended. For every key of at least 64 bits, \<open>generate_round_keys\<close> returns
  16 round keys, the same as for the first 64 bits of the key. For every block of at
  least 64 bits and every round-key sequence of at least 16 entries whose first 16
  entries have at least 48 bits each, the block transform returns a 64-bit result, the
  same as for the first 64 bits of the block under the first 48 bits of each of the first
  16 round keys. Nothing is stated for inputs shorter than that.
\<close>

theorem oversized_inputs_truncated:
  "(64 \<le> length key \<longrightarrow>
      generate_round_keys key = generate_round_keys (take 64 key)
      \<and> (\<exists>round_keys. generate_round_keys key = Some round_keys \<and> length round_keys = 16))
   \<and> (64 \<le> length block \<and> 16 \<le> length rks \<and> (\<forall>i < 16. 48 \<le> length (rks ! i)) \<longrightarrow>
      encrypt_transform block rks = encrypt_transform (take 64 block) (map (take 48) (take 16 rks))
      \<and> (\<exists>c. encrypt_transform block rks = Some c \<and> length c = 64))"
proof -
  have "generate_round_keys key = generate_round_keys (take 64 key)
      \<and> (\<exists>round_keys. generate_round_keys key = Some round_keys \<and> length round_keys = 16)"
    if "64 \<le> length key"
    using that generate_round_keys_Some [OF that] key_schedule_take [OF that]
    by (auto simp: generate_round_keys_def)
  moreover have "encrypt_transform block rks = encrypt_transform (take 64 block) (map (take 48) (take 16 rks))
      \<and> (\<exists>c. encrypt_transform block rks = Some c \<and> length c = 64)"
    if "64 \<le> length block \<and> 16 \<le> length rks \<and> (\<forall>i < 16. 48 \<le> length (rks ! i))"
    using that encrypt_transform_take [of block rks] encrypt_transform_Some [of block rks] by simp
  ultimately show ?thesis
    by blast
qed

theorem oversized_inputs_truncated_witness:
  "64 \<le> length (replicate 64 False @ [True])
   \<and> generate_round_keys (replicate 64 False @ [True]) = generate_round_keys (replicate 64 False)
   \<and> 16 \<le> length (replicate 17 (replicate 48 False @ [True]))
   \<and> list_all (\<lambda>k. 48 \<le> length k) (replicate 17 (replicate 48 False @ [True]))
   \<and> encrypt_transform (replicate 64 False @ [True]) (replicate 17 (replicate 48 False @ [True]))
       = encrypt_transform (replicate 64 False) (replicate 16 (replicate 48 False))"
proof -
  have k: "64 \<le> length (replicate 64 False @ [True])" by simp
  have n: "16 \<le> length (replicate 17 (replicate 48 False @ [True]))" by simp
  have l: "\<forall>i < 16. 48 \<le> length (replicate 17 (replicate 48 False @ [True]) ! i)" by simp
  have a: "list_all (\<lambda>k. 48 \<le> length k) (replicate 17 (replicate 48 False @ [True]))"
    by (simp add: list_all_iff)
  have t: "take 16 (replicate 17 (replicate 48 False @ [True])) = replicate 16 (replicate 48 False @ [True])"
    by simp
  show ?thesis
    using k n l a t
      oversized_inputs_truncated [of "replicate 64 False @ [True]" "replicate 64 False @ [True]"
        "replicate 17 (replicate 48 False @ [True])"]
    by simp
qed

section \<open>Known-answer vector\<close>

text \<open>
  Claim C1. Encrypting the all-zero 64-bit block under the all-zero 64-bit key (the key
  schedule of \<open>generate_round_keys\<close> followed by the 16-round transform of
  \<open>des_encrypt\<close>) gives the 64 bits of the published DES ciphertext
  \<open>0x8CA64DE9C1B123A7\<close>, most significant bit first.
\<close>

theorem des_encrypt_zero_vector:
  "des_encrypt (replicate 64 False) (replicate 64 False) = Some
     [True, False, False, False,  True, True, False, False,
      True, False, True, False,  False, True, True, False,
      False, True, False, False,  True, True, False, True,
      True, True, True, False,  True, False, False, True,
      True, True, False, False,  False, False, False, True,
      True, False, True, True,  False, False, False, True,
      False, False, True, False,  False, False, True, True,
      True, False, True, False,  False, True, True, True]
   \<and> map_option bits_value (des_encrypt (replicate 64 False) (replicate 64 False))
        = Some 0x8CA64DE9C1B123A7"
  by code_simp

end
